theory Spec2Isabelle
  imports Complex_Main "HOL-Library.AList"
begin

section \<open>Values of the host language\<close>

text \<open>
  The type parameters \<open>K\<close> and \<open>V\<close> of \<open>LRUCache<K, V>\<close> may be instantiated with types
  that contain \<open>null\<close> and \<open>undefined\<close> (the sentinels are built with \<open>null as K\<close>,
  \<open>getSafe\<close> returns \<open>V | undefined\<close>). A key or a value is therefore one of the two
  sentinels or a proper value. Among the proper values, \<open>Unserializable\<close> are the objects
  that \<open>JSON.stringify\<close> rejects with a \<open>TypeError\<close> (an object that contains itself, or a
  \<open>BigInt\<close>); \<open>Val\<close> are all others, primitive values and objects alike. \<open>String\<close> accepts
  both.
\<close>

datatype 'a js = Null | Undefined | Val 'a | Unserializable 'a

fun stringify_throws :: "'a js \<Rightarrow> bool" where
  "stringify_throws (Unserializable _) = True"
| "stringify_throws _ = False"

text \<open>
  A \<open>number\<close> is a finite value or one of the three special values. Every finite double is
  a rational, so the finite numbers are modelled by \<open>rat\<close> (a superset of the doubles; the
  two zeros are identified, which neither \<open>Number.isInteger\<close> nor \<open><=\<close> can tell apart).
\<close>

datatype number = Num rat | NaN | PosInfinity | NegInfinity

fun isInteger :: "number \<Rightarrow> bool" where
  "isInteger (Num q) = (of_int \<lfloor>q\<rfloor> = q)"
| "isInteger _ = False"

text \<open>\<open>num_le a b\<close> is the comparison \<open>a <= b\<close>; every comparison with \<open>NaN\<close> is false.\<close>

fun num_le :: "number \<Rightarrow> number \<Rightarrow> bool" where
  "num_le NaN _ = False"
| "num_le _ NaN = False"
| "num_le (Num a) (Num b) = (a \<le> b)"
| "num_le NegInfinity _ = True"
| "num_le _ PosInfinity = True"
| "num_le _ _ = False"

section \<open>Errors (errors.ts)\<close>

text \<open>
  An error object has a class and a message. \<open>InvalidCapacityError\<close> and \<open>KeyNotFoundError\<close>
  extend \<open>LRUCacheError\<close>; \<open>TypeError\<close> is what the runtime raises when a property of
  \<open>null\<close> is read or written, and when \<open>JSON.stringify\<close> rejects its argument. The message
  texts are kept as terms: one constructor for each literal or template of the source,
  applied to the values the template embeds.
\<close>

datatype error_class = TypeError | LRUCacheError | InvalidCapacityError | KeyNotFoundError

datatype 'k message =
    NullDereference
  | CannotStringify "'k js"
  | KeyCannotBeNull
  | MissingLinks
  | MissingHeadLink
  | BrokenLink
  | InvalidCapacity number
  | KeyNotFound "'k js"
  | ErrorAccessing "'k js" "'k message"
  | ErrorPutting "'k js" "'k message"
  | ErrorClearing "'k message"
  | ErrorGettingKeys "'k message"

datatype 'k error = Error (cls: error_class) (message: "'k message")

text \<open>
  \<open>new KeyNotFoundError(key)\<close>. The constructor builds its message with
  \<open>typeof key === "object" ? JSON.stringify(key) : String(key)\<close>, so it throws (\<open>Inl\<close>) the
  \<open>TypeError\<close> of \<open>JSON.stringify\<close> for an object that cannot be serialized, and returns
  (\<open>Inr\<close>) the new error object otherwise.
\<close>

definition new_KeyNotFoundError :: "'k js \<Rightarrow> 'k error + 'k error" where
  "new_KeyNotFoundError k =
     (if stringify_throws k then Inl (Error TypeError (CannotStringify k))
      else Inr (Error KeyNotFoundError (KeyNotFound k)))"

text \<open>\<open>e instanceof c\<close>, for the classes above.\<close>

definition instanceof :: "'k error \<Rightarrow> error_class \<Rightarrow> bool" where
  "instanceof e c =
     (cls e = c \<or> (c = LRUCacheError \<and> (cls e = InvalidCapacityError \<or> cls e = KeyNotFoundError)))"

section \<open>Nodes, the store and the cache object\<close>

type_synonym ref = nat

record ('k, 'v) LRUNode =
  key :: "'k js"
  val :: "'v js"
  prev :: "ref option"
  nxt :: "ref option"

text \<open>
  The four fields of the class, and the part of the object store that holds the nodes:
  \<open>heap\<close> maps a reference to the node it points to, \<open>fresh\<close> is the next reference that
  \<open>new LRUNode\<close> hands out. References are never invalid in the host language, so \<open>heap\<close>
  is total.
\<close>

record ('k, 'v) LRUCache =
  capacity :: number
  cache :: "('k js \<times> ref) list"
  head :: ref
  tail :: ref
  heap :: "ref \<Rightarrow> ('k, 'v) LRUNode"
  fresh :: ref

text \<open>
  The \<open>Map\<close> is an association list in insertion order: \<open>get\<close> is \<^const>\<open>map_of\<close>,
  \<open>set\<close> is \<^const>\<open>AList.update\<close> (in place for a key that is there, at the end otherwise),
  \<open>delete\<close> is \<^const>\<open>AList.delete\<close>, \<open>clear\<close> is \<open>[]\<close> and \<open>size\<close> is the length.
\<close>

type_synonym ('k, 'a) result = "('k error + 'a)"

definition set_prev :: "ref \<Rightarrow> ref option \<Rightarrow> ('k, 'v) LRUCache \<Rightarrow> ('k, 'v) LRUCache" where
  "set_prev r p s = s\<lparr>heap := (heap s)(r := (heap s r)\<lparr>prev := p\<rparr>)\<rparr>"

definition set_nxt :: "ref \<Rightarrow> ref option \<Rightarrow> ('k, 'v) LRUCache \<Rightarrow> ('k, 'v) LRUCache" where
  "set_nxt r n s = s\<lparr>heap := (heap s)(r := (heap s r)\<lparr>nxt := n\<rparr>)\<rparr>"

definition set_val :: "ref \<Rightarrow> 'v js \<Rightarrow> ('k, 'v) LRUCache \<Rightarrow> ('k, 'v) LRUCache" where
  "set_val r v s = s\<lparr>heap := (heap s)(r := (heap s r)\<lparr>val := v\<rparr>)\<rparr>"

text \<open>\<open>new LRUNode(key, value)\<close>: both links start as \<open>null\<close>.\<close>

definition new_LRUNode ::
  "'k js \<Rightarrow> 'v js \<Rightarrow> ('k, 'v) LRUCache \<Rightarrow> ref \<times> ('k, 'v) LRUCache" where
  "new_LRUNode k v s =
     (fresh s,
      s\<lparr>heap := (heap s)(fresh s := \<lparr>key = k, val = v, prev = None, nxt = None\<rparr>),
        fresh := Suc (fresh s)\<rparr>)"

section \<open>The operations (class LRUCache)\<close>

text \<open>
  A method takes the state and returns its result, an error or a value, together with the
  state it leaves behind, also when it throws.
\<close>

definition construct :: "number \<Rightarrow> ('k, ('k, 'v) LRUCache) result" where
  "construct c =
     (if \<not> isInteger c \<or> num_le c (Num 0) then Inl (Error InvalidCapacityError (InvalidCapacity c))
      else Inr \<lparr>capacity = c, cache = [], head = 0, tail = 1,
                heap = (\<lambda>_. \<lparr>key = Null, val = Null, prev = None, nxt = None\<rparr>)
                  (0 := \<lparr>key = Null, val = Null, prev = None, nxt = Some 1\<rparr>,
                   1 := \<lparr>key = Null, val = Null, prev = Some 0, nxt = None\<rparr>),
                fresh = 2\<rparr>)"

definition removeNode :: "ref \<Rightarrow> ('k, 'v) LRUCache \<Rightarrow> ('k, unit) result \<times> ('k, 'v) LRUCache" where
  "removeNode node s =
     (case prev (heap s node) of
        None \<Rightarrow> (Inl (Error LRUCacheError MissingLinks), s)
      | Some p \<Rightarrow>
         (case nxt (heap s node) of
            None \<Rightarrow> (Inl (Error LRUCacheError MissingLinks), s)
          | Some n \<Rightarrow> (Inr (), set_prev n (Some p) (set_nxt p (Some n) s))))"

definition addToFront :: "ref \<Rightarrow> ('k, 'v) LRUCache \<Rightarrow> ('k, unit) result \<times> ('k, 'v) LRUCache" where
  "addToFront node s =
     (case nxt (heap s (head s)) of
        None \<Rightarrow> (Inl (Error LRUCacheError MissingHeadLink), s)
      | Some _ \<Rightarrow>
         (let s1 = set_prev node (Some (head s)) s;
              s2 = set_nxt node (nxt (heap s1 (head s1))) s1
          in case nxt (heap s2 (head s2)) of
               None \<Rightarrow> (Inl (Error TypeError NullDereference), s2)
             | Some hn \<Rightarrow>
                (let s3 = set_prev hn (Some node) s2
                 in (Inr (), set_nxt (head s3) (Some node) s3))))"

text \<open>
  \<open>catch (error) { throw new LRUCacheError(`... ${error.message}`) }\<close>: every error of the
  guarded block is replaced by an \<open>LRUCacheError\<close> whose message embeds the old one.
\<close>

definition rethrow ::
  "('k message \<Rightarrow> 'k message) \<Rightarrow> ('k, 'a) result \<times> 's \<Rightarrow> ('k, 'a) result \<times> 's" where
  "rethrow f r =
     (case r of
        (Inl e, s) \<Rightarrow> (Inl (Error LRUCacheError (f (message e))), s)
      | (Inr x, s) \<Rightarrow> (Inr x, s))"

definition get :: "'k js \<Rightarrow> ('k, 'v) LRUCache \<Rightarrow> ('k, 'v js) result \<times> ('k, 'v) LRUCache" where
  "get k s =
     (case map_of (cache s) k of
        None \<Rightarrow>
         (case new_KeyNotFoundError k of
            Inl e \<Rightarrow> (Inl e, s)
          | Inr e \<Rightarrow> (Inl e, s))
      | Some node \<Rightarrow>
         rethrow (ErrorAccessing k)
           (case removeNode node s of
              (Inl e, s1) \<Rightarrow> (Inl e, s1)
            | (Inr _, s1) \<Rightarrow>
               (case addToFront node s1 of
                  (Inl e, s2) \<Rightarrow> (Inl e, s2)
                | (Inr _, s2) \<Rightarrow> (Inr (val (heap s2 node)), s2))))"

definition getSafe :: "'k js \<Rightarrow> ('k, 'v) LRUCache \<Rightarrow> ('k, 'v js) result \<times> ('k, 'v) LRUCache" where
  "getSafe k s =
     (case get k s of
        (Inl e, s1) \<Rightarrow> if instanceof e KeyNotFoundError then (Inr Undefined, s1) else (Inl e, s1)
      | (Inr v, s1) \<Rightarrow> (Inr v, s1))"

text \<open>The eviction inside \<open>put\<close> (lines 147 to 149): \<open>tail.prev\<close> is unlinked and its key deleted.\<close>

definition evict :: "('k, 'v) LRUCache \<Rightarrow> ('k, unit) result \<times> ('k, 'v) LRUCache" where
  "evict s =
     (case prev (heap s (tail s)) of
        None \<Rightarrow> (Inl (Error TypeError NullDereference), s)
      | Some lru \<Rightarrow>
         (case removeNode lru s of
            (Inl e, s1) \<Rightarrow> (Inl e, s1)
          | (Inr _, s1) \<Rightarrow> (Inr (), s1\<lparr>cache := AList.delete (key (heap s1 lru)) (cache s1)\<rparr>)))"

definition size_c :: "('k, 'v) LRUCache \<Rightarrow> nat" where
  "size_c s = length (cache s)"

definition put :: "'k js \<Rightarrow> 'v js \<Rightarrow> ('k, 'v) LRUCache \<Rightarrow> ('k, unit) result \<times> ('k, 'v) LRUCache" where
  "put k v s =
     (if k = Null \<or> k = Undefined then (Inl (Error LRUCacheError KeyCannotBeNull), s)
      else rethrow (ErrorPutting k)
        (case map_of (cache s) k of
           Some existingNode \<Rightarrow>
             (case removeNode existingNode (set_val existingNode v s) of
                (Inl e, s1) \<Rightarrow> (Inl e, s1)
              | (Inr _, s1) \<Rightarrow> addToFront existingNode s1)
         | None \<Rightarrow>
             (case new_LRUNode k v s of
                (newNode, s1) \<Rightarrow>
                  (case (if num_le (capacity s1) (Num (of_nat (size_c s1))) then evict s1
                         else (Inr (), s1)) of
                     (Inl e, s2) \<Rightarrow> (Inl e, s2)
                   | (Inr _, s2) \<Rightarrow>
                       addToFront newNode (s2\<lparr>cache := AList.update k newNode (cache s2)\<rparr>)))))"

definition clear :: "('k, 'v) LRUCache \<Rightarrow> ('k, unit) result \<times> ('k, 'v) LRUCache" where
  "clear s =
     rethrow ErrorClearing
       (let s1 = s\<lparr>cache := []\<rparr>;
            s2 = set_nxt (head s1) (Some (tail s1)) s1
        in (Inr (), set_prev (tail s2) (Some (head s2)) s2))"

text \<open>
  The loop of \<open>keys\<close>. It follows the links until it meets \<open>tail\<close>, which it need not: the
  result is \<open>None\<close> when the loop runs forever.
\<close>

partial_function (option) keys_loop ::
  "('k, 'v) LRUCache \<Rightarrow> ref option \<Rightarrow> 'k js list \<Rightarrow> ('k, 'k js list) result option" where
  "keys_loop s current ks =
     (if current = Some (tail s) then Some (Inr ks)
      else case current of
             None \<Rightarrow> Some (Inl (Error LRUCacheError BrokenLink))
           | Some c \<Rightarrow> keys_loop s (nxt (heap s c)) (ks @ [key (heap s c)]))"

declare keys_loop.simps [code]

definition keys :: "('k, 'v) LRUCache \<Rightarrow> ('k, 'k js list) result option" where
  "keys s =
     map_option
       (\<lambda>r. case r of
              Inl e \<Rightarrow> Inl (Error LRUCacheError (ErrorGettingKeys (message e)))
            | Inr ks \<Rightarrow> Inr ks)
       (keys_loop s (nxt (heap s (head s))) [])"

definition has :: "'k js \<Rightarrow> ('k, 'v) LRUCache \<Rightarrow> bool" where
  "has k s = (map_of (cache s) k \<noteq> None)"

section \<open>Well-formed caches\<close>

text \<open>
  \<open>linked h rs\<close>: each element of \<open>rs\<close> points forward to the one after it, which points
  back to it. \<open>chain s ps\<close>: the list of the cache runs from \<open>head\<close> through the distinct
  references \<open>ps\<close> to \<open>tail\<close>, all of them allocated. \<open>wf s ps\<close> adds what the class keeps
  true of its fields: the capacity is a positive integer that bounds the size, the map has
  one entry for each reference of \<open>ps\<close>, under the key of its node, and no key is \<open>null\<close>
  or \<open>undefined\<close>. \<open>invar\<close> hides the list; \<open>reachable\<close> are the states that the public
  operations produce (\<open>has\<close>, \<open>size\<close> and \<open>keys\<close> return no state).
\<close>

fun linked :: "(ref \<Rightarrow> ('k, 'v) LRUNode) \<Rightarrow> ref list \<Rightarrow> bool" where
  "linked h (a # b # rs) = (nxt (h a) = Some b \<and> prev (h b) = Some a \<and> linked h (b # rs))"
| "linked h _ = True"

definition chain :: "('k, 'v) LRUCache \<Rightarrow> ref list \<Rightarrow> bool" where
  "chain s ps =
     (distinct (head s # ps @ [tail s]) \<and> linked (heap s) (head s # ps @ [tail s]) \<and>
      list_all (\<lambda>r. r < fresh s) (head s # ps @ [tail s]))"

definition cap_ok :: "('k, 'v) LRUCache \<Rightarrow> bool" where
  "cap_ok s =
     (isInteger (capacity s) \<and> \<not> num_le (capacity s) (Num 0) \<and>
      num_le (Num (of_nat (size_c s))) (capacity s))"

definition wf :: "('k, 'v) LRUCache \<Rightarrow> ref list \<Rightarrow> bool" where
  "wf s ps =
     (chain s ps \<and> cap_ok s \<and> distinct (map fst (cache s)) \<and> distinct (map snd (cache s)) \<and>
      set (map snd (cache s)) = set ps \<and>
      (\<forall>e \<in> set (cache s).
         key (heap s (snd e)) = fst e \<and> fst e \<noteq> Null \<and> fst e \<noteq> Undefined))"

definition invar :: "('k, 'v) LRUCache \<Rightarrow> bool" where
  "invar s = (\<exists>ps. wf s ps)"

text \<open>
  \<open>same_data s s'\<close>: \<open>s'\<close> differs from \<open>s\<close> at most in the map and in the links of its nodes.
\<close>

definition same_data :: "('k, 'v) LRUCache \<Rightarrow> ('k, 'v) LRUCache \<Rightarrow> bool" where
  "same_data s s' =
     (capacity s' = capacity s \<and> head s' = head s \<and> tail s' = tail s \<and>
      fresh s' = fresh s \<and>
      (\<forall>x. key (heap s' x) = key (heap s x) \<and> val (heap s' x) = val (heap s x)))"

inductive reachable :: "('k, 'v) LRUCache \<Rightarrow> bool" where
  construct: "construct c = Inr s \<Longrightarrow> reachable s"
| put: "reachable s \<Longrightarrow> reachable (snd (put k v s))"
| get: "reachable s \<Longrightarrow> reachable (snd (get k s))"
| getSafe: "reachable s \<Longrightarrow> reachable (snd (getSafe k s))"
| clear: "reachable s \<Longrightarrow> reachable (snd (clear s))"

text \<open>
  A positive integer, in the words of the specification: a number that is an integer and
  greater than zero. It is compared with the test the constructor makes.
\<close>

definition positive_integer :: "number \<Rightarrow> bool" where
  "positive_integer c = (case c of Num q \<Rightarrow> q \<in> \<int> \<and> 0 < q | _ \<Rightarrow> False)"

text \<open>Two concrete caches of capacity 2: a new one, and one holding the keys a and b.\<close>

definition cache_empty :: "(string, nat) LRUCache" where
  "cache_empty = projr (construct (Num 2))"

definition cache_ab :: "(string, nat) LRUCache" where
  "cache_ab = snd (put (Val ''b'') (Val 2) (snd (put (Val ''a'') (Val 1) cache_empty)))"


section \<open>Linked lists in the store\<close>

lemma linked_append:
  "linked h (xs @ ys) =
     (linked h xs \<and> linked h ys \<and>
      (xs \<noteq> [] \<and> ys \<noteq> [] \<longrightarrow>
         nxt (h (last xs)) = Some (hd ys) \<and> prev (h (hd ys)) = Some (last xs)))"
proof (induction xs)
  case Nil
  show ?case by simp
next
  case (Cons a xs)
  then show ?case by (cases xs; cases ys) auto
qed

lemma in_tl_set: "x \<in> set (tl xs) \<Longrightarrow> x \<in> set xs"
  by (cases xs) auto

lemma linked_frame:
  "linked h xs \<Longrightarrow> \<forall>r \<in> set (butlast xs). nxt (h' r) = nxt (h r) \<Longrightarrow>
   \<forall>r \<in> set (tl xs). prev (h' r) = prev (h r) \<Longrightarrow> linked h' xs"
  by (induction h xs rule: linked.induct) auto

lemma linked_frame_snoc:
  assumes "linked h (A @ [p])" "\<forall>r \<in> set A. nxt (h' r) = nxt (h r)"
    "\<forall>r \<in> set (A @ [p]). prev (h' r) = prev (h r)"
  shows "linked h' (A @ [p])"
proof (rule linked_frame[OF assms(1)])
  show "\<forall>r \<in> set (butlast (A @ [p])). nxt (h' r) = nxt (h r)"
    using assms(2) by simp
  show "\<forall>r \<in> set (tl (A @ [p])). prev (h' r) = prev (h r)"
  proof
    fix r
    assume "r \<in> set (tl (A @ [p]))"
    then have "r \<in> set (A @ [p])" by (rule in_tl_set)
    with assms(3) show "prev (h' r) = prev (h r)" by (rule bspec)
  qed
qed

lemma linked_frame_cons:
  assumes "linked h (n # B)" "\<forall>r \<in> set (n # B). nxt (h' r) = nxt (h r)"
    "\<forall>r \<in> set B. prev (h' r) = prev (h r)"
  shows "linked h' (n # B)"
proof (rule linked_frame[OF assms(1)])
  show "\<forall>r \<in> set (butlast (n # B)). nxt (h' r) = nxt (h r)"
  proof
    fix r
    assume "r \<in> set (butlast (n # B))"
    then have "r \<in> set (n # B)" by (rule in_set_butlastD)
    with assms(2) show "nxt (h' r) = nxt (h r)" by (rule bspec)
  qed
  show "\<forall>r \<in> set (tl (n # B)). prev (h' r) = prev (h r)"
    using assms(3) by simp
qed

lemma cap_positive:
  assumes "isInteger x" "\<not> num_le x (Num 0)"
  shows "\<exists>c::nat. 0 < c \<and> x = Num (of_nat c)"
proof (cases x)
  case (Num q)
  with assms have q: "of_int \<lfloor>q\<rfloor> = q" "0 < q" by auto
  then have "0 < \<lfloor>q\<rfloor>" by linarith
  then have "0 < nat \<lfloor>q\<rfloor> \<and> q = of_nat (nat \<lfloor>q\<rfloor>)" using q(1)
    by (metis of_nat_nat order_less_imp_le zero_less_nat_eq of_int_of_nat_eq)
  with Num show ?thesis by blast
qed (use assms in auto)

lemma keys_loop_chain:
  "linked h (p # ps @ [t]) \<Longrightarrow> distinct (ps @ [t]) \<Longrightarrow> heap s = h \<Longrightarrow> tail s = t \<Longrightarrow>
   keys_loop s (nxt (h p)) ks = Some (Inr (ks @ map (\<lambda>r. key (h r)) ps))"
proof (induction ps arbitrary: p ks)
  case Nil
  then show ?case by (simp add: keys_loop.simps)
next
  case (Cons a ps)
  from Cons.prems have "nxt (h p) = Some a" "a \<noteq> t" by auto
  moreover have "keys_loop s (nxt (h a)) (ks @ [key (h a)]) =
      Some (Inr ((ks @ [key (h a)]) @ map (\<lambda>r. key (h r)) ps))"
    using Cons.prems by (intro Cons.IH) auto
  ultimately show ?case using Cons.prems by (subst keys_loop.simps) simp
qed

lemma keys_chain:
  "chain s ps \<Longrightarrow> keys s = Some (Inr (map (\<lambda>r. key (heap s r)) ps))"
  using keys_loop_chain[of "heap s" "head s" ps "tail s" s "[]"]
  by (simp add: keys_def chain_def)


section \<open>The two list helpers\<close>

lemma same_data_refl: "same_data s s"
  by (simp add: same_data_def)

lemma same_data_trans: "same_data s s1 \<Longrightarrow> same_data s1 s2 \<Longrightarrow> same_data s s2"
  by (simp add: same_data_def)


lemma chain_same_data:
  "same_data s s' \<Longrightarrow>
   chain s' ps =
     (distinct (head s # ps @ [tail s]) \<and> linked (heap s') (head s # ps @ [tail s]) \<and>
      list_all (\<lambda>r. r < fresh s) (head s # ps @ [tail s]))"
  by (simp add: chain_def same_data_def)

lemma linked_unlink:
  assumes l: "linked h (A @ p # r # n # B)" and d: "distinct (A @ p # r # n # B)"
    and nx: "\<forall>x. x \<noteq> p \<longrightarrow> nxt (h' x) = nxt (h x)"
    and pv: "\<forall>x. x \<noteq> n \<longrightarrow> prev (h' x) = prev (h x)"
    and new: "nxt (h' p) = Some n" "prev (h' n) = Some p"
  shows "linked h' (A @ p # n # B)"
proof -
  from l have lA: "linked h (A @ [p])" and lB: "linked h (n # B)"
    using linked_append[of h "A @ [p]" "r # n # B"] by auto
  have "linked h' (A @ [p])"
    using d nx pv by (intro linked_frame_snoc[OF lA]) auto
  moreover have "linked h' (n # B)"
    using d nx pv by (intro linked_frame_cons[OF lB]) auto
  ultimately show ?thesis
    using new linked_append[of h' "A @ [p]" "n # B"] by simp
qed

lemma linked_mid:
  "linked h (A @ p # r # n # B) \<Longrightarrow> prev (h r) = Some p \<and> nxt (h r) = Some n"
  using linked_append[of h "A @ [p]" "r # n # B"] by auto

lemma removeNode_chain:
  assumes "chain s (as @ r # bs)"
  shows "\<exists>s'. removeNode r s = (Inr (), s') \<and> chain s' (as @ bs) \<and> same_data s s' \<and>
           cache s' = cache s"
proof -
  obtain A p where A: "head s # as = A @ [p]"
    by (cases "head s # as" rule: rev_cases) auto
  obtain n B where B: "bs @ [tail s] = n # B"
    by (cases "bs @ [tail s]") auto
  have "head s # (as @ r # bs) @ [tail s] = (head s # as) @ r # (bs @ [tail s])"
    by simp
  then have L: "head s # (as @ r # bs) @ [tail s] = A @ p # r # n # B"
    by (simp only: A B) simp
  have "head s # (as @ bs) @ [tail s] = (head s # as) @ (bs @ [tail s])"
    by simp
  then have L': "head s # (as @ bs) @ [tail s] = A @ p # n # B"
    by (simp only: A B) simp
  from assms L have d: "distinct (A @ p # r # n # B)" and l: "linked (heap s) (A @ p # r # n # B)"
    and f: "list_all (\<lambda>x. x < fresh s) (A @ p # r # n # B)"
    by (simp_all only: chain_def)
  define s' where "s' = set_prev n (Some p) (set_nxt p (Some n) s)"
  have rem: "removeNode r s = (Inr (), s')"
    using linked_mid[OF l] by (simp add: removeNode_def s'_def)
  have sd: "same_data s s'"
    by (simp add: same_data_def s'_def set_prev_def set_nxt_def)
  have "linked (heap s') (A @ p # n # B)"
    using d by (intro linked_unlink[OF l d]) (auto simp: s'_def set_prev_def set_nxt_def)
  moreover have "distinct (A @ p # n # B)" "list_all (\<lambda>x. x < fresh s) (A @ p # n # B)"
    using d f by auto
  ultimately have "chain s' (as @ bs)"
    unfolding chain_same_data[OF sd] L' by blast
  moreover have "cache s' = cache s"
    by (simp add: s'_def set_prev_def set_nxt_def)
  ultimately show ?thesis using rem sd by blast
qed

lemma addToFront_chain:
  assumes c: "chain s ps" and r: "r \<notin> set (head s # ps @ [tail s])" "r < fresh s"
  shows "\<exists>s'. addToFront r s = (Inr (), s') \<and> chain s' (r # ps) \<and> same_data s s' \<and>
           cache s' = cache s"
proof -
  obtain n B where B: "ps @ [tail s] = n # B"
    by (cases "ps @ [tail s]") auto
  let ?h = "heap s"
  from c B have d: "distinct (head s # n # B)" and l: "linked ?h (head s # n # B)"
    and f: "list_all (\<lambda>x. x < fresh s) (head s # n # B)"
    by (simp_all add: chain_def)
  from r B have r': "r \<noteq> head s" "r \<noteq> n" "r \<notin> set B" by auto
  define s' where "s' = set_nxt (head s) (Some r) (set_prev n (Some r)
      (set_nxt r (Some n) (set_prev r (Some (head s)) s)))"
  have hn: "nxt (?h (head s)) = Some n" using l by simp
  have add: "addToFront r s = (Inr (), s')"
    using hn r' by (simp add: addToFront_def s'_def set_prev_def set_nxt_def Let_def)
  have sd: "same_data s s'"
    by (simp add: same_data_def s'_def set_prev_def set_nxt_def)
  have lB: "linked ?h (n # B)" using l by simp
  have "linked (heap s') (n # B)"
    using d r' by (intro linked_frame_cons[OF lB])
      (auto simp: s'_def set_prev_def set_nxt_def)
  then have "linked (heap s') (head s # r # n # B)"
    using d r' by (auto simp: s'_def set_prev_def set_nxt_def)
  moreover have "distinct (head s # r # n # B)" "list_all (\<lambda>x. x < fresh s) (head s # r # n # B)"
    using d f r r' by auto
  ultimately have "chain s' (r # ps)"
    unfolding chain_same_data[OF sd] using B by simp
  moreover have "cache s' = cache s"
    by (simp add: s'_def set_prev_def set_nxt_def)
  ultimately show ?thesis using add sd by blast
qed


section \<open>What each operation does to a well-formed cache\<close>

lemma cap_ok_nat:
  assumes "cap_ok s"
  shows "\<exists>c. 0 < c \<and> capacity s = Num (of_nat c) \<and> size_c s \<le> c"
proof -
  from assms obtain c :: nat where c: "0 < c" "capacity s = Num (of_nat c)"
    using cap_positive[of "capacity s"] by (auto simp: cap_ok_def)
  with assms have "size_c s \<le> c" by (simp add: cap_ok_def)
  with c show ?thesis by blast
qed

lemma wf_length: "wf s ps \<Longrightarrow> length ps = size_c s"
proof -
  assume w: "wf s ps"
  then have "distinct ps" "distinct (map snd (cache s))" "set (map snd (cache s)) = set ps"
    by (auto simp: wf_def chain_def)
  then have "length ps = length (map snd (cache s))"
    by (metis distinct_card)
  then show ?thesis by (simp add: size_c_def)
qed

lemma wf_lookup:
  "wf s ps \<Longrightarrow> (map_of (cache s) k = Some r) = ((k, r) \<in> set (cache s))"
  by (simp add: wf_def)

lemma wf_lookup_ref:
  "wf s ps \<Longrightarrow> map_of (cache s) k = Some r \<Longrightarrow>
   r \<in> set ps \<and> key (heap s r) = k \<and> k \<noteq> Null \<and> k \<noteq> Undefined"
proof -
  assume w: "wf s ps" and "map_of (cache s) k = Some r"
  then have m: "(k, r) \<in> set (cache s)" by (simp add: wf_lookup)
  then have "snd (k, r) \<in> set (map snd (cache s))" by (simp only: set_map) (rule imageI)
  with w m show ?thesis by (auto simp: wf_def)
qed

lemma wf_reorder:
  assumes "wf s ps" "same_data s s'" "cache s' = cache s" "chain s' ps'" "set ps' = set ps"
  shows "wf s' ps'"
  using assms by (simp add: wf_def same_data_def cap_ok_def size_c_def)

lemma move_to_front:
  assumes w: "wf s ps" and r: "r \<in> set ps"
  shows "\<exists>s1 s2. removeNode r s = (Inr (), s1) \<and> addToFront r s1 = (Inr (), s2) \<and>
           wf s2 (r # remove1 r ps) \<and> same_data s s2 \<and> cache s2 = cache s"
proof -
  from r obtain as bs where ps: "ps = as @ r # bs" "r \<notin> set as"
    by (auto dest: split_list_first)
  then have rm: "remove1 r ps = as @ bs" by (simp add: remove1_append)
  from w ps have c: "chain s (as @ r # bs)" by (simp add: wf_def)
  then obtain s1 where s1: "removeNode r s = (Inr (), s1)" "chain s1 (as @ bs)"
    "same_data s s1" "cache s1 = cache s"
    using removeNode_chain by blast
  from c have "r \<notin> set (head s # (as @ bs) @ [tail s])" "r < fresh s"
    by (auto simp: chain_def)
  with s1(3) have "r \<notin> set (head s1 # (as @ bs) @ [tail s1])" "r < fresh s1"
    by (simp_all add: same_data_def)
  with s1(2) obtain s2 where s2: "addToFront r s1 = (Inr (), s2)" "chain s2 (r # as @ bs)"
    "same_data s1 s2" "cache s2 = cache s1"
    using addToFront_chain by blast
  have sd: "same_data s s2" using s1(3) s2(3) by (rule same_data_trans)
  have "wf s2 (r # remove1 r ps)"
    using w sd _ _ _ 
  proof (rule wf_reorder)
    show "cache s2 = cache s" using s1(4) s2(4) by simp
    show "chain s2 (r # remove1 r ps)" using s2(2) rm by simp
    show "set (r # remove1 r ps) = set ps" using ps rm by auto
  qed
  with s1 s2 sd show ?thesis by auto
qed


lemma get_hit:
  assumes w: "wf s ps" and m: "map_of (cache s) k = Some r"
  shows "\<exists>s'. get k s = (Inr (val (heap s r)), s') \<and> wf s' (r # remove1 r ps) \<and>
           same_data s s' \<and> cache s' = cache s"
proof -
  from w m have "r \<in> set ps" by (simp add: wf_lookup_ref)
  with w obtain s1 s2 where s: "removeNode r s = (Inr (), s1)" "addToFront r s1 = (Inr (), s2)"
    "wf s2 (r # remove1 r ps)" "same_data s s2" "cache s2 = cache s"
    using move_to_front by blast
  then have "get k s = (Inr (val (heap s r)), s2)"
    using m by (simp add: get_def rethrow_def same_data_def)
  with s show ?thesis by blast
qed

lemma get_miss:
  "map_of (cache s) k = None \<Longrightarrow>
   get k s =
     (Inl (if stringify_throws k then Error TypeError (CannotStringify k)
           else Error KeyNotFoundError (KeyNotFound k)), s)"
  by (simp add: get_def new_KeyNotFoundError_def)

lemma wf_set_val: "wf s ps \<Longrightarrow> wf (set_val r v s) ps"
proof -
  assume w: "wf s ps"
  have l: "linked (heap (set_val r v s)) xs = linked (heap s) xs" for xs
    by (induction "heap s" xs rule: linked.induct) (auto simp: set_val_def)
  have f: "head (set_val r v s) = head s" "tail (set_val r v s) = tail s"
    "fresh (set_val r v s) = fresh s" "cache (set_val r v s) = cache s"
    "capacity (set_val r v s) = capacity s"
    by (simp_all add: set_val_def)
  have k: "key (heap (set_val r v s) x) = key (heap s x)" for x
    by (simp add: set_val_def)
  from w show ?thesis
    by (simp add: wf_def chain_def cap_ok_def size_c_def l f k)
qed

lemma put_existing:
  assumes w: "wf s ps" and m: "map_of (cache s) k = Some r"
  shows "\<exists>s'. put k v s = (Inr (), s') \<and> wf s' (r # remove1 r ps) \<and> cache s' = cache s \<and>
           val (heap s' r) = v \<and> (\<forall>x. key (heap s' x) = key (heap s x)) \<and>
           (\<forall>x. x \<noteq> r \<longrightarrow> val (heap s' x) = val (heap s x))"
proof -
  let ?s0 = "set_val r v s"
  from w m have r: "r \<in> set ps" "k \<noteq> Null" "k \<noteq> Undefined" by (simp_all add: wf_lookup_ref)
  have "wf ?s0 ps" using w by (rule wf_set_val)
  with r obtain s1 s2 where s: "removeNode r ?s0 = (Inr (), s1)" "addToFront r s1 = (Inr (), s2)"
    "wf s2 (r # remove1 r ps)" "same_data ?s0 s2" "cache s2 = cache ?s0"
    using move_to_front by blast
  then have "put k v s = (Inr (), s2)"
    using m r by (simp add: put_def rethrow_def)
  moreover have "cache s2 = cache s" using s(5) by (simp add: set_val_def)
  moreover have "val (heap s2 r) = v" "\<forall>x. key (heap s2 x) = key (heap s x)"
    "\<forall>x. x \<noteq> r \<longrightarrow> val (heap s2 x) = val (heap s x)"
    using s(4) by (simp_all add: same_data_def set_val_def)
  ultimately show ?thesis using s(3) by blast
qed


lemma update_absent: "k \<notin> fst ` set al \<Longrightarrow> AList.update k v al = al @ [(k, v)]"
  by (induction al) auto

lemma num_le_mono:
  "n' \<le> n \<Longrightarrow> num_le (Num (of_nat n)) x \<Longrightarrow> num_le (Num (of_nat n')) x"
  by (cases x) auto

lemma wf_alloc:
  assumes w: "wf s ps"
  shows "\<exists>s1. new_LRUNode k v s = (fresh s, s1) \<and> wf s1 ps \<and> cache s1 = cache s \<and>
           capacity s1 = capacity s \<and> head s1 = head s \<and> tail s1 = tail s \<and>
           fresh s < fresh s1 \<and> fresh s \<notin> set (head s # ps @ [tail s]) \<and>
           key (heap s1 (fresh s)) = k \<and> val (heap s1 (fresh s)) = v \<and>
           (\<forall>x. x \<noteq> fresh s \<longrightarrow> heap s1 x = heap s x)"
proof -
  define s1 where "s1 = s\<lparr>heap := (heap s)(fresh s := \<lparr>key = k, val = v, prev = None, nxt = None\<rparr>),
        fresh := Suc (fresh s)\<rparr>"
  let ?L = "head s # ps @ [tail s]"
  from w have c: "distinct ?L" "linked (heap s) ?L" "list_all (\<lambda>r. r < fresh s) ?L"
    by (simp_all add: wf_def chain_def)
  from c(3) have lt: "\<forall>r \<in> set ?L. r < fresh s" by (simp only: list_all_iff)
  then have nf: "fresh s \<notin> set ?L" by blast
  have same: "\<forall>x. x \<noteq> fresh s \<longrightarrow> heap s1 x = heap s x" by (simp add: s1_def)
  have "linked (heap s1) ?L"
    using c(2)
  proof (rule linked_frame)
    show "\<forall>r\<in>set (butlast ?L). nxt (heap s1 r) = nxt (heap s r)"
      using same nf by (metis in_set_butlastD)
    show "\<forall>r\<in>set (tl ?L). prev (heap s1 r) = prev (heap s r)"
      using same nf by (metis in_tl_set)
  qed
  moreover have "list_all (\<lambda>r. r < fresh s1) ?L"
    using lt by (simp add: list_all_iff s1_def less_Suc_eq)
  ultimately have ch: "chain s1 ps"
    using c(1) by (simp add: chain_def) (simp add: s1_def)
  have "\<forall>e \<in> set (cache s). snd e \<in> set ps"
    using w by (auto simp: wf_def)
  moreover have "fresh s \<notin> set ps" using nf by simp
  ultimately have "\<forall>e \<in> set (cache s). heap s1 (snd e) = heap s (snd e)"
    using same by metis
  moreover have f: "cache s1 = cache s" "capacity s1 = capacity s"
    by (simp_all add: s1_def)
  ultimately have "wf s1 ps"
    using w ch by (simp add: wf_def cap_ok_def size_c_def)
  moreover have "new_LRUNode k v s = (fresh s, s1)" by (simp add: new_LRUNode_def s1_def)
  ultimately show ?thesis using nf same by (simp add: s1_def)
qed


lemma wf_key_ref:
  assumes w: "wf s ps" and r: "r \<in> set ps"
  shows "(key (heap s r), r) \<in> set (cache s)"
proof -
  from w r have "r \<in> snd ` set (cache s)" by (simp add: wf_def)
  then obtain e where e: "e \<in> set (cache s)" "snd e = r" by auto
  with w have "key (heap s r) = fst e" by (auto simp: wf_def)
  with e show ?thesis by (metis prod.collapse)
qed

lemma wf_evict:
  assumes w: "wf s ps" and ne: "ps \<noteq> []"
  shows "\<exists>s'. evict s = (Inr (), s') \<and> wf s' (butlast ps) \<and> same_data s s' \<and>
           cache s' = AList.delete (key (heap s (last ps))) (cache s) \<and>
           size_c s' < size_c s"
proof -
  from ne obtain bl lru where ps: "ps = bl @ [lru]"
    by (cases ps rule: rev_cases) auto
  let ?kk = "key (heap s lru)"
  let ?C = "cache s"
  from w ps have c: "chain s (bl @ lru # [])" by (simp add: wf_def)
  then have "linked (heap s) ((head s # bl @ [lru]) @ [tail s])"
    by (simp add: chain_def)
  then have pt: "prev (heap s (tail s)) = Some lru"
    by (simp only: linked_append[of "heap s" "head s # bl @ [lru]" "[tail s]"]) simp
  from c obtain s1 where s1: "removeNode lru s = (Inr (), s1)" "chain s1 (bl @ [])"
    "same_data s s1" "cache s1 = cache s"
    using removeNode_chain by blast
  define s' where "s' = s1\<lparr>cache := AList.delete ?kk ?C\<rparr>"
  have ev: "evict s = (Inr (), s')"
    using pt s1 by (simp add: evict_def s'_def same_data_def)
  have sd: "same_data s s'" using s1(3) by (simp add: same_data_def s'_def)
  have ch: "chain s' bl" using s1(2) by (simp add: chain_def s'_def)
  have cs: "cache s' = AList.delete ?kk ?C" by (simp add: s'_def)
  have "lru \<in> set ps" using ps by simp
  with w have mem: "(?kk, lru) \<in> set ?C" by (rule wf_key_ref)
  have d1: "distinct (map fst ?C)" and d2: "distinct (map snd ?C)"
    and dp: "distinct (bl @ [lru])" and sp: "snd ` set ?C = set (bl @ [lru])"
    using w ps by (simp_all add: wf_def chain_def)
  have uniq: "b = lru" if "(?kk, b) \<in> set ?C" for b
    using d1 that mem by (rule eq_key_imp_eq_value)
  have inj: "inj_on snd (set ?C)" using d2 by (simp add: distinct_map)
  have uniq2: "a = ?kk" if "(a, lru) \<in> set ?C" for a
    using inj_onD[OF inj, of "(a, lru)" "(?kk, lru)"] that mem by simp
  have sdel: "set (AList.delete ?kk ?C) = set ?C - {(?kk, lru)}"
    using uniq by (auto simp: AList.delete_eq)
  have "snd ` (set ?C - {(?kk, lru)}) = set bl"
  proof (intro equalityI subsetI)
    fix x
    assume "x \<in> snd ` (set ?C - {(?kk, lru)})"
    then obtain e where e: "e \<in> set ?C" "e \<noteq> (?kk, lru)" "snd e = x" by blast
    have "e = (fst e, x)" using e(3) by (simp add: prod_eq_iff)
    with e obtain a where a: "(a, x) \<in> set ?C" "(a, x) \<noteq> (?kk, lru)"
      by metis
    then have "x \<noteq> lru" using uniq2 by blast
    moreover have "x \<in> set (bl @ [lru])" using a(1) sp by force
    ultimately show "x \<in> set bl" by simp
  next
    fix x
    assume x: "x \<in> set bl"
    then have "x \<in> snd ` set ?C" using sp by simp
    then obtain a where a: "(a, x) \<in> set ?C" by auto
    moreover have "x \<noteq> lru" using x dp by auto
    ultimately show "x \<in> snd ` (set ?C - {(?kk, lru)})" by force
  qed
  then have seq: "set (map snd (cache s')) = set bl"
    using sdel cs by simp
  have len: "length (AList.delete ?kk ?C) < length ?C"
    using length_filter_less[OF mem, of "\<lambda>(k', _). ?kk \<noteq> k'"] by (simp add: AList.delete_eq)
  have "num_le (Num (of_nat (length ?C))) (capacity s)"
    using w by (simp add: wf_def cap_ok_def size_c_def)
  with len have "num_le (Num (of_nat (length (AList.delete ?kk ?C)))) (capacity s)"
    using num_le_mono[of "length (AList.delete ?kk ?C)" "length ?C" "capacity s"] by simp
  then have "cap_ok s'"
    using w sd cs by (simp add: cap_ok_def wf_def same_data_def size_c_def)
  moreover have "distinct (map fst (cache s'))" using d1 cs by (simp add: distinct_delete)
  moreover have "distinct (map snd (cache s'))"
    using d2 cs by (simp add: AList.delete_eq distinct_map_filter)
  moreover have "\<forall>e \<in> set (cache s').
      key (heap s' (snd e)) = fst e \<and> fst e \<noteq> Null \<and> fst e \<noteq> Undefined"
    using w sd sdel cs by (simp add: wf_def same_data_def)
  ultimately have "wf s' bl" using ch seq by (simp add: wf_def)
  with ev sd cs len ps show ?thesis by (simp add: size_c_def)
qed


lemma wf_insert:
  assumes w: "wf s ps" and room: "\<not> num_le (capacity s) (Num (of_nat (size_c s)))"
    and r: "r \<notin> set (head s # ps @ [tail s])" "r < fresh s"
    and k: "key (heap s r) = k" "k \<noteq> Null" "k \<noteq> Undefined"
    and absent: "map_of (cache s) k = None"
  shows "\<exists>s'. addToFront r (s\<lparr>cache := AList.update k r (cache s)\<rparr>) = (Inr (), s') \<and>
           wf s' (r # ps) \<and> same_data s s' \<and> cache s' = cache s @ [(k, r)]"
proof -
  let ?C = "cache s"
  define s0 where "s0 = s\<lparr>cache := AList.update k r ?C\<rparr>"
  have f0: "head s0 = head s" "tail s0 = tail s" "fresh s0 = fresh s" "heap s0 = heap s"
    "capacity s0 = capacity s"
    by (simp_all add: s0_def)
  from w have "chain s0 ps" by (simp add: wf_def chain_def f0)
  moreover have "r \<notin> set (head s0 # ps @ [tail s0])" "r < fresh s0"
    using r by (simp_all add: f0)
  ultimately obtain s' where s': "addToFront r s0 = (Inr (), s')" "chain s' (r # ps)"
    "same_data s0 s'" "cache s' = cache s0"
    using addToFront_chain by blast
  have sd: "same_data s s'" using s'(3) by (simp add: same_data_def f0)
  have nk: "k \<notin> fst ` set ?C" using absent by (simp add: map_of_eq_None_iff)
  then have cs: "cache s' = ?C @ [(k, r)]"
    using s'(4) by (simp add: s0_def update_absent)
  have d1: "distinct (map fst ?C)" and d2: "distinct (map snd ?C)"
    and sp: "snd ` set ?C = set ps"
    and ks: "\<forall>e \<in> set ?C. key (heap s (snd e)) = fst e \<and> fst e \<noteq> Null \<and> fst e \<noteq> Undefined"
    using w by (simp_all add: wf_def)
  from w obtain c where c: "0 < c" "capacity s = Num (of_nat c)" "size_c s \<le> c"
    using cap_ok_nat[of s] by (auto simp: wf_def)
  with room have "Suc (size_c s) \<le> c" by simp
  then have "cap_ok s'"
    using c sd cs by (simp add: cap_ok_def same_data_def size_c_def)
  moreover have "distinct (map fst (cache s'))" using d1 nk cs by simp
  moreover have "distinct (map snd (cache s'))" using d2 sp r(1) cs by simp
  moreover have "set (map snd (cache s')) = set (r # ps)" using sp cs by simp
  moreover have "\<forall>e \<in> set (cache s').
      key (heap s' (snd e)) = fst e \<and> fst e \<noteq> Null \<and> fst e \<noteq> Undefined"
    using ks k sd cs by (simp add: same_data_def)
  ultimately have "wf s' (r # ps)" using s'(2) by (simp add: wf_def)
  with s' sd cs show ?thesis by (simp add: s0_def)
qed


lemma put_new:
  assumes w: "wf s ps" and k: "k \<noteq> Null" "k \<noteq> Undefined"
    and absent: "map_of (cache s) k = None"
  shows "\<exists>s'. put k v s = (Inr (), s') \<and>
           wf s' (fresh s # (if num_le (capacity s) (Num (of_nat (size_c s))) then butlast ps else ps)) \<and>
           cache s' =
             (if num_le (capacity s) (Num (of_nat (size_c s)))
              then AList.delete (key (heap s (last ps))) (cache s) else cache s) @ [(k, fresh s)] \<and>
           key (heap s' (fresh s)) = k \<and> val (heap s' (fresh s)) = v \<and>
           (\<forall>x. x \<noteq> fresh s \<longrightarrow>
              key (heap s' x) = key (heap s x) \<and> val (heap s' x) = val (heap s x)) \<and>
           capacity s' = capacity s"
proof -
  let ?r = "fresh s"
  obtain s1 where s1: "new_LRUNode k v s = (?r, s1)" "wf s1 ps" "cache s1 = cache s"
    "capacity s1 = capacity s" "head s1 = head s" "tail s1 = tail s" "?r < fresh s1"
    "?r \<notin> set (head s # ps @ [tail s])" "key (heap s1 ?r) = k" "val (heap s1 ?r) = v"
    "\<forall>x. x \<noteq> ?r \<longrightarrow> heap s1 x = heap s x"
    using wf_alloc[OF w, of k v] by blast
  have sz: "size_c s1 = size_c s" using s1(3) by (simp add: size_c_def)
  have abs1: "map_of (cache s1) k = None" using absent s1(3) by simp
  show ?thesis
  proof (cases "num_le (capacity s) (Num (of_nat (size_c s)))")
    case True
    from w obtain c where c: "0 < c" "capacity s = Num (of_nat c)" "size_c s \<le> c"
      using cap_ok_nat[of s] by (auto simp: wf_def)
    with True have "0 < size_c s" by simp
    then have ne: "ps \<noteq> []" using wf_length[OF w] by auto
    then obtain s2 where s2: "evict s1 = (Inr (), s2)" "wf s2 (butlast ps)" "same_data s1 s2"
      "cache s2 = AList.delete (key (heap s1 (last ps))) (cache s1)" "size_c s2 < size_c s1"
      using wf_evict[OF s1(2)] by blast
    from ne s1(8) have "last ps \<noteq> ?r" by (metis UnCI last_in_set list.set_intros(2) set_append)
    then have kl: "key (heap s1 (last ps)) = key (heap s (last ps))" using s1(11) by simp
    have room: "\<not> num_le (capacity s2) (Num (of_nat (size_c s2)))"
      using s2(3,5) sz c s1(4) by (simp add: same_data_def)
    have "?r \<notin> set (head s2 # butlast ps @ [tail s2])"
      using s1(5,6,8) s2(3) by (auto simp: same_data_def dest: in_set_butlastD)
    moreover have "?r < fresh s2" using s1(7) s2(3) by (simp add: same_data_def)
    moreover have "key (heap s2 ?r) = k" using s1(9) s2(3) by (simp add: same_data_def)
    moreover have "map_of (cache s2) k = None" using abs1 s2(4) by (simp add: delete_conv')
    ultimately obtain s3 where s3:
      "addToFront ?r (s2\<lparr>cache := AList.update k ?r (cache s2)\<rparr>) = (Inr (), s3)"
      "wf s3 (?r # butlast ps)" "same_data s2 s3" "cache s3 = cache s2 @ [(k, ?r)]"
      using wf_insert[OF s2(2) room _ _ _ k] by blast
    have "put k v s = (Inr (), s3)"
      using k absent s1(1,4) sz True s2(1) s3(1) by (simp add: put_def rethrow_def)
    moreover have "same_data s1 s3" using s2(3) s3(3) by (rule same_data_trans)
    ultimately show ?thesis
      using True s3(2,4) s2(4) kl s1 by (simp add: same_data_def)
  next
    case False
    then have room: "\<not> num_le (capacity s1) (Num (of_nat (size_c s1)))"
      using s1(4) sz by simp
    have "?r \<notin> set (head s1 # ps @ [tail s1])" using s1(5,6,8) by simp
    then obtain s3 where s3:
      "addToFront ?r (s1\<lparr>cache := AList.update k ?r (cache s1)\<rparr>) = (Inr (), s3)"
      "wf s3 (?r # ps)" "same_data s1 s3" "cache s3 = cache s1 @ [(k, ?r)]"
      using wf_insert[OF s1(2) room _ s1(7) s1(9) k abs1] by blast
    have "put k v s = (Inr (), s3)"
      using k absent s1(1,4) sz False s3(1) by (simp add: put_def rethrow_def)
    then show ?thesis
      using False s3(2,3,4) s1 by (simp add: same_data_def)
  qed
qed

lemma put_null:
  "k = Null \<or> k = Undefined \<Longrightarrow> put k v s = (Inl (Error LRUCacheError KeyCannotBeNull), s)"
  by (auto simp: put_def)


lemma construct_ok:
  assumes "isInteger c" "\<not> num_le c (Num 0)"
  shows "\<exists>s. construct c = Inr s \<and> wf s [] \<and> capacity s = c"
proof -
  from assms obtain n :: nat where n: "0 < n" "c = Num (of_nat n)"
    using cap_positive by blast
  let ?s = "\<lparr>capacity = c, cache = [], head = 0, tail = 1,
      heap = (\<lambda>_. \<lparr>key = Null, val = Null, prev = None, nxt = None\<rparr>)
        (0 := \<lparr>key = Null, val = Null, prev = None, nxt = Some 1\<rparr>,
         1 := \<lparr>key = Null, val = Null, prev = Some 0, nxt = None\<rparr>),
      fresh = 2\<rparr> :: ('a, 'b) LRUCache"
  have "construct c = Inr ?s" using assms by (simp add: construct_def)
  moreover have "wf ?s []"
    using assms n by (simp add: wf_def chain_def cap_ok_def size_c_def)
  ultimately show ?thesis by simp
qed

lemma construct_fail:
  "\<not> isInteger c \<or> num_le c (Num 0) \<Longrightarrow>
   construct c = Inl (Error InvalidCapacityError (InvalidCapacity c))"
  by (auto simp: construct_def)

lemma clear_ok:
  assumes w: "wf s ps"
  shows "\<exists>s'. clear s = (Inr (), s') \<and> wf s' [] \<and> capacity s' = capacity s \<and> cache s' = []"
proof -
  define s' where "s' = set_prev (tail s) (Some (head s))
      (set_nxt (head s) (Some (tail s)) (s\<lparr>cache := []\<rparr>))"
  have cl: "clear s = (Inr (), s')"
    by (simp add: clear_def rethrow_def s'_def Let_def set_nxt_def set_prev_def)
  from w have ht: "head s \<noteq> tail s" "head s < fresh s" "tail s < fresh s"
    by (auto simp: wf_def chain_def)
  from w obtain c where c: "0 < c" "capacity s = Num (of_nat c)"
    using cap_ok_nat[of s] by (auto simp: wf_def)
  have "wf s' []"
    using ht c w
    by (simp add: wf_def chain_def cap_ok_def size_c_def s'_def set_nxt_def set_prev_def)
  with cl show ?thesis by (simp add: s'_def set_nxt_def set_prev_def)
qed

lemma getSafe_state: "snd (getSafe k s) = snd (get k s)"
  by (simp add: getSafe_def split: prod.splits sum.splits)

section \<open>Reachable states are well-formed\<close>

lemma invar_put: "invar s \<Longrightarrow> invar (snd (put k v s))"
proof -
  assume "invar s"
  then obtain ps where w: "wf s ps" by (auto simp: invar_def)
  show ?thesis
  proof (cases "k = Null \<or> k = Undefined")
    case True
    then show ?thesis using \<open>invar s\<close> by (simp add: put_null)
  next
    case False
    show ?thesis
    proof (cases "map_of (cache s) k")
      case None
      with put_new[OF w _ _ None, of v] False show ?thesis
        unfolding invar_def by (metis snd_conv)
    next
      case (Some r)
      with put_existing[OF w Some, of v] show ?thesis
        unfolding invar_def by (metis snd_conv)
    qed
  qed
qed

lemma invar_get: "invar s \<Longrightarrow> invar (snd (get k s))"
proof -
  assume i: "invar s"
  then obtain ps where w: "wf s ps" by (auto simp: invar_def)
  show ?thesis
  proof (cases "map_of (cache s) k")
    case None
    then show ?thesis using i by (simp add: get_miss)
  next
    case (Some r)
    with get_hit[OF w Some] show ?thesis
      unfolding invar_def by (metis snd_conv)
  qed
qed

lemma invar_clear: "invar s \<Longrightarrow> invar (snd (clear s))"
  using clear_ok unfolding invar_def by (metis snd_conv)

lemma invar_construct:
  fixes s :: "('k, 'v) LRUCache"
  assumes c: "construct c = Inr s"
  shows "invar s"
proof -
  from c have "isInteger c" "\<not> num_le c (Num 0)"
    by (auto simp: construct_def split: if_splits)
  then obtain s' :: "('k, 'v) LRUCache" where "construct c = Inr s'" "wf s' []"
    using construct_ok by blast
  with c show ?thesis by (auto simp: invar_def)
qed

lemma reachable_invar: "reachable s \<Longrightarrow> invar s"
  by (induction rule: reachable.induct)
    (simp_all add: invar_construct invar_put invar_get invar_clear getSafe_state)

lemma wf_keys: "wf s ps \<Longrightarrow> keys s = Some (Inr (map (\<lambda>r. key (heap s r)) ps))"
  by (simp add: wf_def keys_chain)

lemma has_lookup: "has k s = (\<exists>r. map_of (cache s) k = Some r)"
  by (simp add: has_def)

lemma has_set: "has k s = (k \<in> fst ` set (cache s))"
  by (simp add: has_def map_of_eq_None_iff)

lemma positive_integer_iff: "positive_integer c = (isInteger c \<and> \<not> num_le c (Num 0))"
  by (cases c) (auto simp: positive_integer_def elim: Ints_cases)

lemma getSafe_hit: "get k s = (Inr v, s') \<Longrightarrow> getSafe k s = (Inr v, s')"
  by (simp add: getSafe_def)

lemma getSafe_miss:
  "map_of (cache s) k = None \<Longrightarrow>
   getSafe k s =
     (if stringify_throws k then Inl (Error TypeError (CannotStringify k)) else Inr Undefined, s)"
  by (simp add: getSafe_def get_miss instanceof_def)

lemma wf_keys_set:
  assumes w: "wf s ps"
  shows "set (map (\<lambda>r. key (heap s r)) ps) = {k. has k s}"
proof (intro equalityI subsetI)
  fix k
  assume "k \<in> set (map (\<lambda>r. key (heap s r)) ps)"
  then obtain r where r: "r \<in> set ps" "k = key (heap s r)" by auto
  from wf_key_ref[OF w r(1)] r(2) have "(k, r) \<in> set (cache s)" by simp
  then have "k \<in> fst ` set (cache s)" by (rule image_eqI[rotated]) simp
  then show "k \<in> {k. has k s}" by (simp add: has_set)
next
  fix k
  assume "k \<in> {k. has k s}"
  then obtain r where m: "map_of (cache s) k = Some r" by (auto simp: has_lookup)
  from wf_lookup_ref[OF w m] have "r \<in> set ps" "key (heap s r) = k" by simp_all
  then show "k \<in> set (map (\<lambda>r. key (heap s r)) ps)" by force
qed




lemma put_ok:
  assumes w: "wf s ps" and k: "k \<noteq> Null" "k \<noteq> Undefined"
  shows "\<exists>s' ps' r. put k v s = (Inr (), s') \<and> wf s' (r # ps') \<and>
           map_of (cache s') k = Some r \<and> key (heap s' r) = k \<and> val (heap s' r) = v"
proof (cases "map_of (cache s) k")
  case None
  let ?full = "num_le (capacity s) (Num (of_nat (size_c s)))"
  let ?C = "if ?full then AList.delete (key (heap s (last ps))) (cache s) else cache s"
  from put_new[OF w k None, of v] obtain s' where s': "put k v s = (Inr (), s')"
    "wf s' (fresh s # (if ?full then butlast ps else ps))" "cache s' = ?C @ [(k, fresh s)]"
    "key (heap s' (fresh s)) = k" "val (heap s' (fresh s)) = v"
    by blast
  have "map_of ?C k = None" using None by (simp add: delete_conv')
  then have "map_of (cache s') k = Some (fresh s)"
    using s'(3) by (simp add: map_add_def)
  with s' show ?thesis by blast
next
  case (Some r)
  from put_existing[OF w Some, of v] obtain s' where s': "put k v s = (Inr (), s')"
    "wf s' (r # remove1 r ps)" "cache s' = cache s" "val (heap s' r) = v"
    "\<forall>x. key (heap s' x) = key (heap s x)"
    by blast
  moreover have "key (heap s r) = k" using wf_lookup_ref[OF w Some] by simp
  ultimately show ?thesis using Some by (metis)
qed

section \<open>The test of the repository, run on the model\<close>

text \<open>
  "should evict least recently used item when capacity is reached" (lru-cache.test.ts):
  capacity 2, put a, put b, get a, put c; then b is gone, and a and c are there, c first.
\<close>

lemma test_evicts_least_recently_used:
  "fst (get (Val ''a'') cache_ab) = Inr (Val 1) \<and>
   keys (snd (put (Val ''c'') (Val 3) (snd (get (Val ''a'') cache_ab)))) =
     Some (Inr [Val ''c'', Val ''a'']) \<and>
   fst (get (Val ''b'') (snd (put (Val ''c'') (Val 3) (snd (get (Val ''a'') cache_ab))))) =
     Inl (Error KeyNotFoundError (KeyNotFound (Val ''b'')))"
  by code_simp

section \<open>The claims\<close>

text \<open>
  C4 (recency law). In every well-formed cache, \<open>get\<close> of a key that is present succeeds,
  and the key is then the first element of what \<open>keys\<close> returns.
\<close>

theorem get_moves_key_to_front:
  assumes "invar s" "has k s"
  shows "\<exists>v s' ks. get k s = (Inr v, s') \<and> keys s' = Some (Inr (k # ks))"
proof -
  from assms obtain ps r where w: "wf s ps" and m: "map_of (cache s) k = Some r"
    by (auto simp: invar_def has_lookup)
  then obtain s' where s': "get k s = (Inr (val (heap s r)), s')" "wf s' (r # remove1 r ps)"
    "same_data s s'"
    using get_hit by blast
  have "key (heap s' r) = k"
    using s'(3) wf_lookup_ref[OF w m] by (simp add: same_data_def)
  then have "keys s' = Some (Inr (k # map (\<lambda>x. key (heap s' x)) (remove1 r ps)))"
    using wf_keys[OF s'(2)] by simp
  with s'(1) show ?thesis by blast
qed

theorem get_moves_key_to_front_witness:
  "invar cache_ab \<and> has (Val ''a'') cache_ab \<and>
   (\<exists>v s' ks. get (Val ''a'') cache_ab = (Inr v, s') \<and> keys s' = Some (Inr (Val ''a'' # ks)))"
proof -
  have "wf cache_ab [3, 2]" by code_simp
  then have i: "invar cache_ab" by (auto simp: invar_def)
  have h: "has (Val ''a'') cache_ab" by code_simp
  from get_moves_key_to_front[OF i h] i h show ?thesis by blast
qed


text \<open>
  C7 (miss and hit of \<open>get\<close> and \<open>getSafe\<close>) fails on the code for one kind of key. For an
  absent key that is an object \<open>JSON.stringify\<close> rejects, the constructor of
  \<open>KeyNotFoundError\<close> throws while it builds its message: \<open>get\<close> fails with a \<open>TypeError\<close>, not
  with a \<open>KeyNotFoundError\<close>, and \<open>getSafe\<close>, "safe version of get that returns undefined
  instead of throwing", throws that \<open>TypeError\<close> too. The cache is left as it was.
\<close>

theorem get_of_absent_unserializable_key_throws_TypeError:
  assumes "\<not> has (Unserializable x) s"
  shows "get (Unserializable x) s =
           (Inl (Error TypeError (CannotStringify (Unserializable x))), s) \<and>
         getSafe (Unserializable x) s =
           (Inl (Error TypeError (CannotStringify (Unserializable x))), s)"
proof -
  from assms have m: "map_of (cache s) (Unserializable x) = None" by (simp add: has_def)
  then show ?thesis by (simp add: get_miss getSafe_miss)
qed

theorem get_of_absent_unserializable_key_throws_TypeError_witness:
  "\<not> has (Unserializable ''o'') cache_ab \<and>
   get (Unserializable ''o'') cache_ab =
     (Inl (Error TypeError (CannotStringify (Unserializable ''o''))), cache_ab) \<and>
   getSafe (Unserializable ''o'') cache_ab =
     (Inl (Error TypeError (CannotStringify (Unserializable ''o''))), cache_ab)"
proof -
  have a: "\<not> has (Unserializable ''o'') cache_ab" by code_simp
  from get_of_absent_unserializable_key_throws_TypeError[OF a] a show ?thesis by simp
qed

text \<open>
  C3 (null key), as the claim states it, fails: the error that \<open>put\<close> throws for a \<open>null\<close>
  key is an object of the base class \<open>LRUCacheError\<close> itself, the class of the errors that
  report broken links (here the one \<open>removeNode\<close> throws for the head sentinel); no class of
  its own tells it apart.
\<close>

theorem put_null_key_error_is_generic:
  "fst (put Null (Val 1) cache_ab) = Inl (Error LRUCacheError KeyCannotBeNull) \<and>
   cls (projl (fst (put Null (Val 1) cache_ab))) =
     cls (projl (fst (removeNode (head cache_ab) cache_ab)))"
  by code_simp

text \<open>
  C3, amended. In every state, \<open>put\<close> with a \<open>null\<close> or \<open>undefined\<close> key fails with an error
  of class \<open>LRUCacheError\<close> whose message is "Key cannot be null or undefined", and the state
  it leaves is the state it was given.
\<close>

theorem put_null_key_rejected:
  "put Null v s = (Inl (Error LRUCacheError KeyCannotBeNull), s) \<and>
   put Undefined v s = (Inl (Error LRUCacheError KeyCannotBeNull), s)"
  by (simp add: put_def)

text \<open>
  C8 (constructor). \<open>construct\<close> fails with an \<open>InvalidCapacityError\<close> exactly when the
  capacity is not a positive integer (\<^const>\<open>positive_integer\<close> says so in the words of the
  specification), and for a positive integer it returns a cache of that capacity with no
  entry: its size is 0 and \<open>keys\<close> returns the empty sequence.
\<close>

theorem construct_checks_capacity:
  fixes c :: number
  shows "(positive_integer c \<longrightarrow>
            (\<exists>s :: ('k, 'v) LRUCache. construct c = Inr s \<and> capacity s = c \<and> size_c s = 0 \<and>
               keys s = Some (Inr []))) \<and>
         (\<not> positive_integer c \<longrightarrow>
            (construct c :: ('k, ('k, 'v) LRUCache) result) =
              Inl (Error InvalidCapacityError (InvalidCapacity c)))"
proof (intro conjI impI)
  assume "positive_integer c"
  then have "isInteger c" "\<not> num_le c (Num 0)" by (simp_all add: positive_integer_iff)
  then obtain s :: "('k, 'v) LRUCache" where s: "construct c = Inr s" "wf s []" "capacity s = c"
    using construct_ok by blast
  from s(2) have "keys s = Some (Inr [])" "size_c s = 0"
    using wf_keys[of s "[]"] wf_length[of s "[]"] by simp_all
  with s show "\<exists>s :: ('k, 'v) LRUCache. construct c = Inr s \<and> capacity s = c \<and> size_c s = 0 \<and>
      keys s = Some (Inr [])" by blast
next
  assume "\<not> positive_integer c"
  then have "\<not> isInteger c \<or> num_le c (Num 0)" by (simp add: positive_integer_iff)
  then show "(construct c :: ('k, ('k, 'v) LRUCache) result) =
      Inl (Error InvalidCapacityError (InvalidCapacity c))"
    by (rule construct_fail)
qed

theorem construct_checks_capacity_witness:
  "positive_integer (Num 2) \<and>
   (\<exists>s :: (string, nat) LRUCache. construct (Num 2) = Inr s \<and> capacity s = Num 2 \<and>
      size_c s = 0 \<and> keys s = Some (Inr [])) \<and>
   \<not> positive_integer (Num 0) \<and>
   (construct (Num 0) :: (string, (string, nat) LRUCache) result) =
     Inl (Error InvalidCapacityError (InvalidCapacity (Num 0))) \<and>
   \<not> positive_integer (Num (- 1)) \<and>
   (construct (Num (- 1)) :: (string, (string, nat) LRUCache) result) =
     Inl (Error InvalidCapacityError (InvalidCapacity (Num (- 1)))) \<and>
   \<not> positive_integer (Num (1 / 2)) \<and>
   (construct (Num (1 / 2)) :: (string, (string, nat) LRUCache) result) =
     Inl (Error InvalidCapacityError (InvalidCapacity (Num (1 / 2)))) \<and>
   \<not> positive_integer NaN \<and>
   (construct NaN :: (string, (string, nat) LRUCache) result) =
     Inl (Error InvalidCapacityError (InvalidCapacity NaN))"
proof -
  have "\<not> isInteger (Num (1 / 2))" by code_simp
  then have p: "positive_integer (Num 2)" "\<not> positive_integer (Num 0)"
    "\<not> positive_integer (Num (- 1))" "\<not> positive_integer (Num (1 / 2))" "\<not> positive_integer NaN"
    by (simp_all add: positive_integer_iff)
  from p construct_checks_capacity[of "Num 2", where ?'k = string and ?'v = nat]
    construct_checks_capacity[of "Num 0", where ?'k = string and ?'v = nat]
    construct_checks_capacity[of "Num (- 1)", where ?'k = string and ?'v = nat]
    construct_checks_capacity[of "Num (1 / 2)", where ?'k = string and ?'v = nat]
    construct_checks_capacity[of NaN, where ?'k = string and ?'v = nat]
  show ?thesis by blast
qed




text \<open>
  C6 (round trip). In a well-formed cache, \<open>put\<close> of a valid key succeeds, and a \<open>get\<close> of
  that key right after it returns the value that was put.
\<close>

theorem put_then_get_returns_value:
  assumes "invar s" "k \<noteq> Null" "k \<noteq> Undefined"
  shows "\<exists>s' s''. put k v s = (Inr (), s') \<and> get k s' = (Inr v, s'')"
proof -
  from assms(1) obtain ps where w: "wf s ps" by (auto simp: invar_def)
  from put_ok[OF w assms(2,3), of v] obtain s' ps' r where s': "put k v s = (Inr (), s')"
    "wf s' (r # ps')" "map_of (cache s') k = Some r" "val (heap s' r) = v"
    by blast
  from get_hit[OF s'(2,3)] s'(4) obtain s'' where "get k s' = (Inr v, s'')" by auto
  with s'(1) show ?thesis by blast
qed

theorem put_then_get_returns_value_witness:
  "invar cache_ab \<and>
   (\<exists>s' s''. put (Val ''c'') (Val 3) cache_ab = (Inr (), s') \<and> get (Val ''c'') s' = (Inr (Val 3), s''))"
proof -
  have "wf cache_ab [3, 2]" by code_simp
  then have i: "invar cache_ab" by (auto simp: invar_def)
  from put_then_get_returns_value[OF i, of "Val ''c''" "Val 3"] i show ?thesis by simp
qed


text \<open>
  C5 (update as use). In a well-formed cache, \<open>put\<close> of a key that is present succeeds, a
  \<open>get\<close> of the key then returns the new value, \<open>keys\<close> starts with the key and is the
  sequence that a \<open>get\<close> of the key would have left, the size is unchanged and so is the
  set of keys present: nothing is evicted, whatever the size.
\<close>

theorem put_existing_key_replaces_and_refreshes:
  assumes "invar s" "has k s"
  shows "\<exists>s' ks. put k v2 s = (Inr (), s') \<and> fst (get k s') = Inr v2 \<and>
           keys s' = Some (Inr (k # ks)) \<and> keys s' = keys (snd (get k s)) \<and>
           size_c s' = size_c s \<and> (\<forall>k'. has k' s' = has k' s)"
proof -
  from assms obtain ps r where w: "wf s ps" and m: "map_of (cache s) k = Some r"
    by (auto simp: invar_def has_lookup)
  let ?ps = "r # remove1 r ps"
  from put_existing[OF w m, of v2] obtain s' where s': "put k v2 s = (Inr (), s')"
    "wf s' ?ps" "cache s' = cache s" "val (heap s' r) = v2"
    "\<forall>x. key (heap s' x) = key (heap s x)"
    by blast
  from get_hit[OF w m] obtain s2 where s2: "get k s = (Inr (val (heap s r)), s2)"
    "wf s2 ?ps" "same_data s s2"
    by blast
  have kr: "key (heap s r) = k" using wf_lookup_ref[OF w m] by simp
  have "map_of (cache s') k = Some r" using m s'(3) by simp
  from get_hit[OF s'(2) this] s'(4) have g: "fst (get k s') = Inr v2" by auto
  have k1: "keys s' = Some (Inr (map (\<lambda>x. key (heap s x)) ?ps))"
    using wf_keys[OF s'(2)] s'(5) by simp
  have "keys s2 = Some (Inr (map (\<lambda>x. key (heap s x)) ?ps))"
    using wf_keys[OF s2(2)] s2(3) by (simp add: same_data_def)
  with k1 s2(1) have k2: "keys s' = keys (snd (get k s))" by simp
  have k3: "keys s' = Some (Inr (k # map (\<lambda>x. key (heap s x)) (remove1 r ps)))"
    using k1 kr by simp
  have sz: "size_c s' = size_c s" "\<forall>k'. has k' s' = has k' s"
    using s'(3) by (simp_all add: size_c_def has_def)
  from s'(1) g k3 k2 sz show ?thesis by blast
qed

theorem put_existing_key_replaces_and_refreshes_witness:
  "invar cache_ab \<and> has (Val ''a'') cache_ab \<and>
   (\<exists>s' ks. put (Val ''a'') (Val 7) cache_ab = (Inr (), s') \<and>
      fst (get (Val ''a'') s') = Inr (Val 7) \<and>
      keys s' = Some (Inr (Val ''a'' # ks)) \<and> keys s' = keys (snd (get (Val ''a'') cache_ab)) \<and>
      size_c s' = size_c cache_ab \<and> (\<forall>k'. has k' s' = has k' cache_ab))"
proof -
  have "wf cache_ab [3, 2]" by code_simp
  then have i: "invar cache_ab" by (auto simp: invar_def)
  have h: "has (Val ''a'') cache_ab" by code_simp
  from put_existing_key_replaces_and_refreshes[OF i h, of "Val 7"] i h show ?thesis by simp
qed

text \<open>
  C2 (invariant). Every state that the constructor and any sequence of \<open>put\<close>, \<open>get\<close>,
  \<open>getSafe\<close> and \<open>clear\<close> calls produce, failed calls included (\<open>has\<close>, \<open>size\<close> and \<open>keys\<close>
  return no state), has at most \<open>capacity\<close> entries, and its map and its list are in
  bijection: the references between the two sentinels are distinct, looking a key up is a
  bijection from the keys of the map onto these references, each of them is what the map
  holds for the key of its node, and \<open>keys\<close> returns their keys, as many as \<open>size\<close> says
  and none of them twice.
\<close>

theorem reachable_size_bound_and_bijection:
  assumes "reachable s"
  shows "num_le (Num (of_nat (size_c s))) (capacity s) \<and>
         (\<exists>ps. chain s ps \<and> distinct ps \<and>
            bij_betw (\<lambda>k. the (map_of (cache s) k)) {k. has k s} (set ps) \<and>
            (\<forall>r \<in> set ps. map_of (cache s) (key (heap s r)) = Some r) \<and>
            length ps = size_c s \<and>
            keys s = Some (Inr (map (\<lambda>r. key (heap s r)) ps)) \<and>
            distinct (map (\<lambda>r. key (heap s r)) ps))"
proof -
  from assms have "invar s" by (rule reachable_invar)
  then obtain ps where w: "wf s ps" by (auto simp: invar_def)
  let ?C = "cache s"
  let ?f = "\<lambda>k. the (map_of ?C k)"
  let ?kf = "\<lambda>r. key (heap s r)"
  from w have c: "chain s ps" and dp: "distinct ps" and d1: "distinct (map fst ?C)"
    and d2: "distinct (map snd ?C)" and sp: "snd ` set ?C = set ps"
    and cap: "num_le (Num (of_nat (size_c s))) (capacity s)"
    by (simp_all add: wf_def chain_def cap_ok_def)
  have look: "map_of ?C (?kf r) = Some r" if "r \<in> set ps" for r
    using wf_key_ref[OF w that] d1 by simp
  have inj: "inj_on ?f {k. has k s}"
  proof (rule inj_onI)
    fix k1 k2
    assume "k1 \<in> {k. has k s}" "k2 \<in> {k. has k s}" and e: "?f k1 = ?f k2"
    then obtain r1 r2 where r: "map_of ?C k1 = Some r1" "map_of ?C k2 = Some r2"
      by (auto simp: has_lookup)
    with e have "r1 = r2" by simp
    with r wf_lookup_ref[OF w r(1)] wf_lookup_ref[OF w r(2)] show "k1 = k2" by simp
  qed
  have img: "?f ` {k. has k s} = set ps"
  proof (intro equalityI subsetI)
    fix r
    assume "r \<in> ?f ` {k. has k s}"
    then obtain k r' where "map_of ?C k = Some r'" "r = r'" by (auto simp: has_lookup)
    then show "r \<in> set ps" using wf_lookup_ref[OF w] by simp
  next
    fix r
    assume r: "r \<in> set ps"
    then have "has (?kf r) s" "?f (?kf r) = r" by (simp_all add: look has_def)
    then show "r \<in> ?f ` {k. has k s}" by (metis imageI mem_Collect_eq)
  qed
  have bij: "bij_betw ?f {k. has k s} (set ps)"
    unfolding bij_betw_def using inj img by (rule conjI)
  have "inj_on ?kf (set ps)"
  proof (rule inj_onI)
    fix r1 r2
    assume a: "r1 \<in> set ps" "r2 \<in> set ps" and e: "?kf r1 = ?kf r2"
    have "Some r1 = map_of ?C (?kf r1)" using look[OF a(1)] by simp
    also have "\<dots> = map_of ?C (?kf r2)" by (simp only: e)
    also have "\<dots> = Some r2" using a(2) by (rule look)
    finally show "r1 = r2" by simp
  qed
  with dp have dk: "distinct (map ?kf ps)" by (simp add: distinct_map)
  have L: "\<forall>r \<in> set ps. map_of ?C (?kf r) = Some r" using look by blast
  have "chain s ps \<and> distinct ps \<and> bij_betw ?f {k. has k s} (set ps) \<and>
      (\<forall>r \<in> set ps. map_of ?C (?kf r) = Some r) \<and> length ps = size_c s \<and>
      keys s = Some (Inr (map ?kf ps)) \<and> distinct (map ?kf ps)"
    using c dp bij L wf_length[OF w] wf_keys[OF w] dk by (intro conjI)
  then have "\<exists>ps. chain s ps \<and> distinct ps \<and> bij_betw ?f {k. has k s} (set ps) \<and>
      (\<forall>r \<in> set ps. map_of ?C (?kf r) = Some r) \<and> length ps = size_c s \<and>
      keys s = Some (Inr (map ?kf ps)) \<and> distinct (map ?kf ps)" ..
  with cap show ?thesis ..
qed

theorem reachable_size_bound_and_bijection_witness:
  "reachable cache_ab \<and> num_le (Num (of_nat (size_c cache_ab))) (capacity cache_ab) \<and>
   (\<exists>ps. chain cache_ab ps \<and> distinct ps \<and>
      bij_betw (\<lambda>k. the (map_of (cache cache_ab) k)) {k. has k cache_ab} (set ps) \<and>
      (\<forall>r \<in> set ps. map_of (cache cache_ab) (key (heap cache_ab r)) = Some r) \<and>
      length ps = size_c cache_ab \<and>
      keys cache_ab = Some (Inr (map (\<lambda>r. key (heap cache_ab r)) ps)) \<and>
      distinct (map (\<lambda>r. key (heap cache_ab r)) ps))"
proof -
  have "construct (Num 2) = Inr cache_empty" by (simp add: cache_empty_def construct_def)
  then have "reachable cache_empty" by (rule reachable.construct)
  then have "reachable (snd (put (Val ''a'') (Val 1) cache_empty))" by (rule reachable.put)
  then have "reachable (snd (put (Val ''b'') (Val 2) (snd (put (Val ''a'') (Val 1) cache_empty))))"
    by (rule reachable.put)
  then have r: "reachable cache_ab" by (simp only: cache_ab_def)
  from reachable_size_bound_and_bijection[OF r] r show ?thesis by simp
qed


text \<open>
  C9 (no internal failure). In every reachable state the checks for missing links never
  fire: \<open>put\<close> with a valid key succeeds, \<open>get\<close> and \<open>getSafe\<close> on a key that is present
  succeed with the same value, \<open>clear\<close> succeeds, and \<open>keys\<close> ends and returns a sequence.
  Whatever error an operation throws there is none of the internal ones: \<open>put\<close> throws
  only the error for a \<open>null\<close> key, and \<open>get\<close> and \<open>getSafe\<close> throw only for a key that is
  absent.
\<close>

theorem reachable_operations_never_fail_internally:
  assumes "reachable s"
  shows "(\<forall>k v. k \<noteq> Null \<longrightarrow> k \<noteq> Undefined \<longrightarrow> fst (put k v s) = Inr ()) \<and>
         (\<forall>k. has k s \<longrightarrow> (\<exists>v. fst (get k s) = Inr v \<and> fst (getSafe k s) = Inr v)) \<and>
         fst (clear s) = Inr () \<and>
         (\<exists>ks. keys s = Some (Inr ks)) \<and>
         (\<forall>k v e. fst (put k v s) = Inl e \<longrightarrow> e = Error LRUCacheError KeyCannotBeNull) \<and>
         (\<forall>k e. fst (get k s) = Inl e \<longrightarrow> \<not> has k s) \<and>
         (\<forall>k e. fst (getSafe k s) = Inl e \<longrightarrow> \<not> has k s)"
proof -
  from assms have "invar s" by (rule reachable_invar)
  then obtain ps where w: "wf s ps" by (auto simp: invar_def)
  have p: "fst (put k v s) = Inr ()" if "k \<noteq> Null" "k \<noteq> Undefined" for k v
    using put_ok[OF w that, of v] by auto
  have g: "\<exists>v. fst (get k s) = Inr v \<and> fst (getSafe k s) = Inr v" if "has k s" for k
  proof -
    from that obtain r where "map_of (cache s) k = Some r" by (auto simp: has_lookup)
    from get_hit[OF w this] obtain s' where "get k s = (Inr (val (heap s r)), s')" by blast
    then show ?thesis by (simp add: getSafe_hit)
  qed
  have c: "fst (clear s) = Inr ()" using clear_ok[OF w] by auto
  have ks: "\<exists>ks. keys s = Some (Inr ks)" using wf_keys[OF w] by simp
  have pe: "e = Error LRUCacheError KeyCannotBeNull" if "fst (put k v s) = Inl e" for k v e
  proof (cases "k = Null \<or> k = Undefined")
    case True
    then show ?thesis using that by (simp add: put_null)
  next
    case False
    then show ?thesis using p[of k v] that by simp
  qed
  have ge: "\<not> has k s" if "fst (get k s) = Inl e" for k e
    using g[of k] that by auto
  have gse: "\<not> has k s" if "fst (getSafe k s) = Inl e" for k e
    using g[of k] that by auto
  from p g c ks pe ge gse show ?thesis by blast
qed

theorem reachable_operations_never_fail_internally_witness:
  "reachable cache_ab \<and> has (Val ''a'') cache_ab \<and>
   fst (put (Val ''c'') (Val 3) cache_ab) = Inr () \<and>
   (\<exists>v. fst (get (Val ''a'') cache_ab) = Inr v \<and> fst (getSafe (Val ''a'') cache_ab) = Inr v) \<and>
   fst (clear cache_ab) = Inr () \<and>
   (\<exists>ks. keys cache_ab = Some (Inr ks))"
proof -
  have "construct (Num 2) = Inr cache_empty" by (simp add: cache_empty_def construct_def)
  then have "reachable cache_empty" by (rule reachable.construct)
  then have "reachable (snd (put (Val ''a'') (Val 1) cache_empty))" by (rule reachable.put)
  then have "reachable (snd (put (Val ''b'') (Val 2) (snd (put (Val ''a'') (Val 1) cache_empty))))"
    by (rule reachable.put)
  then have r: "reachable cache_ab" by (simp only: cache_ab_def)
  have h: "has (Val ''a'') cache_ab" by code_simp
  from reachable_operations_never_fail_internally[OF r] r h show ?thesis by simp
qed

text \<open>
  C10 (values are not validated), as the claim states it, fails in its last clause: \<open>has\<close>
  is not the only operation that tells a key stored with the value \<open>undefined\<close> from a
  missing one. After \<open>put\<close> of c with \<open>undefined\<close> into the cache of a and b, \<open>getSafe\<close>
  returns \<open>undefined\<close> for c and for the absent z, but \<open>get\<close> succeeds on c and fails on z,
  and \<open>keys\<close> lists c and not z.
\<close>

theorem get_and_keys_tell_presence_too:
  "fst (getSafe (Val ''c'') (snd (put (Val ''c'') Undefined cache_ab))) = Inr Undefined \<and>
   fst (getSafe (Val ''z'') (snd (put (Val ''c'') Undefined cache_ab))) = Inr Undefined \<and>
   has (Val ''c'') (snd (put (Val ''c'') Undefined cache_ab)) \<and>
   \<not> has (Val ''z'') (snd (put (Val ''c'') Undefined cache_ab)) \<and>
   fst (get (Val ''c'') (snd (put (Val ''c'') Undefined cache_ab))) = Inr Undefined \<and>
   fst (get (Val ''z'') (snd (put (Val ''c'') Undefined cache_ab))) =
     Inl (Error KeyNotFoundError (KeyNotFound (Val ''z''))) \<and>
   keys (snd (put (Val ''c'') Undefined cache_ab)) = Some (Inr [Val ''c'', Val ''b''])"
  by code_simp

text \<open>
  C10, amended. In a well-formed cache, \<open>put\<close> of a valid key with the value \<open>undefined\<close>
  succeeds; afterwards \<open>has\<close> is true for the key, \<open>get\<close> succeeds on it and returns
  \<open>undefined\<close>, and \<open>getSafe\<close> returns \<open>undefined\<close> for it, which is what it returns, with
  the cache unchanged, for an absent key whose \<open>KeyNotFoundError\<close> can be built. So \<open>getSafe\<close>
  does not tell the stored key from a missing one; \<open>has\<close> does, and so do \<open>get\<close>, which
  fails on every absent key, and \<open>keys\<close>, which lists the keys that are present and no
  other.
\<close>

theorem undefined_value_is_stored:
  assumes "invar s" "k \<noteq> Null" "k \<noteq> Undefined"
  shows "\<exists>s'. put k Undefined s = (Inr (), s') \<and> has k s' \<and>
           fst (get k s') = Inr Undefined \<and> fst (getSafe k s') = Inr Undefined \<and>
           (\<forall>k'. \<not> has k' s' \<longrightarrow> \<not> stringify_throws k' \<longrightarrow>
              getSafe k' s' = (Inr Undefined, s')) \<and>
           (\<forall>k'. \<not> has k' s' \<longrightarrow> (\<exists>e. fst (get k' s') = Inl e)) \<and>
           (\<exists>ks. keys s' = Some (Inr ks) \<and> set ks = {k'. has k' s'})"
proof -
  from assms(1) obtain ps where w: "wf s ps" by (auto simp: invar_def)
  from put_ok[OF w assms(2,3), of Undefined] obtain s' ps' r where
    s': "put k Undefined s = (Inr (), s')" "wf s' (r # ps')" "map_of (cache s') k = Some r"
    "val (heap s' r) = Undefined"
    by blast
  from get_hit[OF s'(2,3)] s'(4) obtain s2 where g: "get k s' = (Inr Undefined, s2)" by auto
  then have "getSafe k s' = (Inr Undefined, s2)" by (rule getSafe_hit)
  then have gs: "fst (getSafe k s') = Inr Undefined" by simp
  have h: "has k s'" using s'(3) by (simp add: has_def)
  have m: "\<forall>k'. \<not> has k' s' \<longrightarrow> \<not> stringify_throws k' \<longrightarrow>
      getSafe k' s' = (Inr Undefined, s')"
    by (simp add: has_def getSafe_miss)
  have gm: "\<forall>k'. \<not> has k' s' \<longrightarrow> (\<exists>e. fst (get k' s') = Inl e)"
    by (simp add: has_def get_miss)
  have "keys s' = Some (Inr (map (\<lambda>x. key (heap s' x)) (r # ps')))"
    using s'(2) by (rule wf_keys)
  moreover have "set (map (\<lambda>x. key (heap s' x)) (r # ps')) = {k'. has k' s'}"
    using s'(2) by (rule wf_keys_set)
  ultimately have ks: "\<exists>ks. keys s' = Some (Inr ks) \<and> set ks = {k'. has k' s'}" by blast
  from g have "fst (get k s') = Inr Undefined" by simp
  with s'(1) h gs m gm ks show ?thesis by blast
qed

theorem undefined_value_is_stored_witness:
  "invar cache_ab \<and>
   (\<exists>s'. put (Val ''c'') Undefined cache_ab = (Inr (), s') \<and> has (Val ''c'') s' \<and>
      fst (get (Val ''c'') s') = Inr Undefined \<and> fst (getSafe (Val ''c'') s') = Inr Undefined \<and>
      (\<forall>k'. \<not> has k' s' \<longrightarrow> \<not> stringify_throws k' \<longrightarrow>
         getSafe k' s' = (Inr Undefined, s')) \<and>
      (\<forall>k'. \<not> has k' s' \<longrightarrow> (\<exists>e. fst (get k' s') = Inl e)) \<and>
      (\<exists>ks. keys s' = Some (Inr ks) \<and> set ks = {k'. has k' s'}))"
proof -
  have "wf cache_ab [3, 2]" by code_simp
  then have i: "invar cache_ab" by (auto simp: invar_def)
  from undefined_value_is_stored[OF i, of "Val ''c''"] i show ?thesis by simp
qed

end
